theory Spec2Isabelle
  imports Complex_Main "HOL-Library.Multiset"
begin

section \<open>Python values used by the notebooks\<close>

text \<open>
  The notebooks are straight-line Python over a handful of library calls. Exceptions are
  values of \<open>py_error\<close>; a call that may raise returns \<open>py_error + 'a\<close>.
\<close>

datatype py_error = IndexError | KeyError | ValueError | AssertionError

subsection \<open>Strings: \<open>str(i)\<close>, \<open>str.lower\<close>, \<open>str.replace\<close>\<close>

definition digit_char :: "nat \<Rightarrow> char" where
  "digit_char d = char_of (48 + d)"

fun str_nat :: "nat \<Rightarrow> string" where
  "str_nat n = (if n < 10 then [digit_char n] else str_nat (n div 10) @ [digit_char (n mod 10)])"

declare str_nat.simps [simp del]

definition str_int :: "int \<Rightarrow> string" where
  "str_int i = (if i < 0 then CHR ''-'' # str_nat (nat (- i)) else str_nat (nat i))"

text \<open>\<open>str.lower\<close> on the ASCII letters; every other byte is kept.\<close>

definition lower_char :: "char \<Rightarrow> char" where
  "lower_char c = (let n = (of_char c :: nat) in if 65 \<le> n \<and> n \<le> 90 then char_of (n + 32) else c)"

definition lower :: "string \<Rightarrow> string" where
  "lower s = map lower_char s"

text \<open>\<open>s.replace(old, new)\<close> for a non-empty \<open>old\<close>, scanning from the left.\<close>

function replace :: "string \<Rightarrow> string \<Rightarrow> string \<Rightarrow> string" where
  "replace old new s =
     (if old = [] \<or> s = [] then s
      else if take (length old) s = old then new @ replace old new (drop (length old) s)
      else hd s # replace old new (tl s))"
  by pat_completeness auto
termination
  by (relation "measure (\<lambda>(old, new, s). length s)") auto

declare replace.simps [simp del]

subsection \<open>Floats: IEEE binary64 values as exact rationals\<close>

text \<open>
  A Python float is modelled by the rational it denotes. Every float operation computes
  the exact result and rounds it to the nearest binary64 value, ties to even (\<open>fl\<close>).
  The exponent range is not bounded: no value the notebooks compute comes near the
  overflow or the subnormal range.
\<close>

fun bit_length :: "nat \<Rightarrow> nat" where
  "bit_length n = (if n = 0 then 0 else Suc (bit_length (n div 2)))"

declare bit_length.simps [simp del]

definition pow2 :: "int \<Rightarrow> rat" where
  "pow2 e = (if 0 \<le> e then 2 ^ nat e else 1 / 2 ^ nat (- e))"

text \<open>The binary exponent of a positive \<open>x\<close>: \<open>pow2 (expo x) \<le> x < pow2 (expo x + 1)\<close>.\<close>

definition expo :: "rat \<Rightarrow> int" where
  "expo x = (if 1 \<le> x then int (bit_length (nat \<lfloor>x\<rfloor>)) - 1
             else - int (bit_length (nat \<lceil>1 / x\<rceil> - 1)))"

definition round_half_even :: "rat \<Rightarrow> int" where
  "round_half_even y =
     (let f = \<lfloor>y\<rfloor>; d = y - of_int f
      in if d < 1 / 2 then f else if 1 / 2 < d then f + 1 else if even f then f else f + 1)"

definition fl :: "rat \<Rightarrow> rat" where
  "fl x = (if x = 0 then 0
           else let a = \<bar>x\<bar>; u = pow2 (expo a - 52)
                in sgn x * (of_int (round_half_even (a / u)) * u))"

text \<open>
  \<open>round(x, 2)\<close> on a float: the decimal with two places nearest to the exact value of
  \<open>x\<close> (ties to even), converted back to the nearest float.
\<close>

definition py_round2 :: "rat \<Rightarrow> rat" where
  "py_round2 x = fl (of_int (round_half_even (x * 100)) / 100)"

text \<open>
  A float prints with at most two digits after the decimal point exactly when it is the
  float nearest to a decimal with two places (\<open>repr\<close> gives the shortest decimal that
  reads back as the same float).
\<close>

definition two_decimals :: "rat \<Rightarrow> bool" where
  "two_decimals x = (x = fl (of_int (round_half_even (x * 100)) / 100))"

section \<open>The generator (notebook: prepare datasets)\<close>

subsection \<open>The libraries the generator calls\<close>

text \<open>
  \<open>random\<close>, \<open>numpy.random\<close>, \<open>faker\<close> and the wall clock are not part of the repository.
  They are parameters of the model: \<open>'g\<close> is the whole seeded generator state (the
  \<open>random\<close> module's, numpy's and the Faker instance's), \<open>'c\<close> the state of the clock.
  Every call takes the state it reads and returns the state it leaves.
\<close>

record profile =
  p_name :: string
  p_sex :: string

record ('g, 'c) library =
  seed :: "int \<Rightarrow> 'g"
  randbelow :: "nat \<Rightarrow> 'g \<Rightarrow> nat \<times> 'g"
  random_random :: "'g \<Rightarrow> rat \<times> 'g"
  faker_profile :: "'g \<Rightarrow> profile \<times> 'g"
  faker_state :: "'g \<Rightarrow> string \<times> 'g"
  faker_boolean :: "'g \<Rightarrow> bool \<times> 'g"
  faker_date_time_between :: "string \<Rightarrow> string \<Rightarrow> 'g \<Rightarrow> string \<times> 'g"
  utc_now_isoformat :: "'c \<Rightarrow> string \<times> 'c"

text \<open>
  \<open>seed L s\<close> is the state after \<open>random.seed(s); np.random.seed(s);
  faker.seed_instance(s)\<close>. \<open>randbelow L n\<close> is \<open>random._randbelow(n)\<close>, the draw behind
  \<open>randint\<close> and \<open>choice\<close>. \<open>faker_date_time_between L start end\<close> is
  \<open>strptime\<close>, \<open>faker.date_time_between\<close> and \<open>strftime\<close> in one.
  \<open>utc_now_isoformat\<close> reads \<open>datetime.now()\<close>, converts to UTC and formats with
  millisecond precision.

  What the documentation of \<open>random\<close> promises about the two draws:
\<close>

definition library_contract :: "('g, 'c) library \<Rightarrow> bool" where
  "library_contract L =
     ((\<forall>n g. 0 < n \<longrightarrow> fst (randbelow L n g) < n) \<and>
      (\<forall>g. 0 \<le> fst (random_random L g) \<and> fst (random_random L g) < 1))"

text \<open>\<open>random.randint(a, b)\<close> is \<open>randrange(a, b + 1)\<close>: \<open>a + _randbelow(b + 1 - a)\<close>.\<close>

definition randint :: "('g, 'c) library \<Rightarrow> int \<Rightarrow> int \<Rightarrow> 'g \<Rightarrow> py_error + (int \<times> 'g)" where
  "randint L a b g =
     (if b + 1 - a \<le> 0 then Inl ValueError
      else let (k, g') = randbelow L (nat (b + 1 - a)) g in Inr (a + int k, g'))"

text \<open>
  \<open>random.choice(seq)\<close> is \<open>seq[self._randbelow(len(seq))]\<close>, with IndexError for an
  empty sequence; the subscript raises IndexError out of range.
\<close>

definition choice :: "('g, 'c) library \<Rightarrow> 'a list \<Rightarrow> 'g \<Rightarrow> py_error + ('a \<times> 'g)" where
  "choice L seq g =
     (if seq = [] then Inl IndexError
      else let (i, g') = randbelow L (length seq) g
           in if i < length seq then Inr (seq ! i, g') else Inl IndexError)"

subsection \<open>Helper functions\<close>

definition generate_timestamp :: "('g, 'c) library \<Rightarrow> string \<Rightarrow> string \<Rightarrow> 'g \<Rightarrow> string \<times> 'g" where
  "generate_timestamp L start end g = faker_date_time_between L start end g"

definition generate_event_timestamp :: "('g, 'c) library \<Rightarrow> 'c \<Rightarrow> string \<times> 'c" where
  "generate_event_timestamp L c =
     (let (event_time, c') = utc_now_isoformat L c
      in (replace ''+00:00'' ''Z'' event_time, c'))"

subsection \<open>Customers\<close>

record customer =
  customer_id :: string
  name :: string
  sex :: string
  state :: string
  age :: int
  is_married :: bool
  active_since :: string
  event_time :: string

definition generate_customer ::
  "('g, 'c) library \<Rightarrow> int \<Rightarrow> 'g \<times> 'c \<Rightarrow> py_error + (customer \<times> ('g \<times> 'c))" where
  "generate_customer L i s =
     (case s of (g, c) \<Rightarrow>
        let (prof, g1) = faker_profile L g;
            (st, g2) = faker_state L g1
        in (case randint L 18 91 g2 of
              Inl e \<Rightarrow> Inl e
            | Inr (a, g3) \<Rightarrow>
                let (m, g4) = faker_boolean L g3;
                    (since, g5) = generate_timestamp L
                          ''2016-01-01 00:00:00'' ''2020-01-01 00:00:01'' g4;
                    (ev, c') = generate_event_timestamp L c
                in Inr (\<lparr>customer_id = ''C'' @ str_int i,
                          name = lower (p_name prof),
                          sex = p_sex prof,
                          state = lower st,
                          age = a,
                          is_married = m,
                          active_since = since,
                          event_time = ev\<rparr>, (g5, c'))))"

text \<open>
  \<open>for i in range(n): customer = generate_customer(i+1); customers.append(customer);
  customer_ids.append(customer.customer_id)\<close>
\<close>

fun customers_loop ::
  "('g, 'c) library \<Rightarrow> nat list \<Rightarrow> customer list \<Rightarrow> string list \<Rightarrow> 'g \<times> 'c
     \<Rightarrow> py_error + (customer list \<times> string list \<times> ('g \<times> 'c))" where
  "customers_loop L [] customers customer_ids s = Inr (customers, customer_ids, s)"
| "customers_loop L (i # rest) customers customer_ids s =
     (case generate_customer L (int i + 1) s of
        Inl e \<Rightarrow> Inl e
      | Inr (cu, s') \<Rightarrow>
          customers_loop L rest (customers @ [cu]) (customer_ids @ [customer_id cu]) s')"

subsection \<open>Orders\<close>

record order =
  order_id :: string
  o_customer_id :: string
  product_id :: string
  purchase_amount :: rat
  is_reordered :: int
  purchased_on :: string
  o_event_time :: string

text \<open>The sequence \<open>[1, 1, 0]\<close> that \<open>is_reordered\<close> is chosen from.\<close>

definition reorder_pool :: "int list" where
  "reorder_pool = [1, 1, 0]"

definition generate_order ::
  "('g, 'c) library \<Rightarrow> string list \<Rightarrow> string list \<Rightarrow> int \<Rightarrow> 'g \<times> 'c
     \<Rightarrow> py_error + (order \<times> ('g \<times> 'c))" where
  "generate_order L customer_ids product_ids i s =
     (case s of (g, c) \<Rightarrow>
       (case choice L customer_ids g of
          Inl e \<Rightarrow> Inl e
        | Inr (cid, g1) \<Rightarrow>
           (case choice L product_ids g1 of
              Inl e \<Rightarrow> Inl e
            | Inr (pid, g2) \<Rightarrow>
               (case randint L 1 101 g2 of
                  Inl e \<Rightarrow> Inl e
                | Inr (n, g3) \<Rightarrow>
                    let (u, g4) = random_random L g3
                    in (case choice L reorder_pool g4 of
                          Inl e \<Rightarrow> Inl e
                        | Inr (r, g5) \<Rightarrow>
                            let (on, g6) = generate_timestamp L
                                  ''2020-01-01 00:01:01'' ''2021-06-01 00:00:01'' g5;
                                (ev, c') = generate_event_timestamp L c
                            in Inr (\<lparr>order_id = ''O'' @ str_int i,
                                      o_customer_id = cid,
                                      product_id = pid,
                                      purchase_amount = fl (of_int n + py_round2 u),
                                      is_reordered = r,
                                      purchased_on = on,
                                      o_event_time = ev\<rparr>, (g6, c')))))))"

text \<open>\<open>for i in range(n): order = generate_order(i+1); orders.append(order)\<close>\<close>

fun orders_loop ::
  "('g, 'c) library \<Rightarrow> string list \<Rightarrow> string list \<Rightarrow> nat list \<Rightarrow> order list \<Rightarrow> 'g \<times> 'c
     \<Rightarrow> py_error + (order list \<times> ('g \<times> 'c))" where
  "orders_loop L customer_ids product_ids [] orders s = Inr (orders, s)"
| "orders_loop L customer_ids product_ids (i # rest) orders s =
     (case generate_order L customer_ids product_ids (int i + 1) s of
        Inl e \<Rightarrow> Inl e
      | Inr (ord, s') \<Rightarrow> orders_loop L customer_ids product_ids rest (orders @ [ord]) s')"

text \<open>
  \<open>event_timestamps = [generate_event_timestamp() for _ in range(len(products_df))]\<close>
\<close>

fun event_timestamps :: "('g, 'c) library \<Rightarrow> nat \<Rightarrow> 'c \<Rightarrow> string list \<times> 'c" where
  "event_timestamps L 0 c = ([], c)"
| "event_timestamps L (Suc k) c =
     (let (t, c1) = generate_event_timestamp L c;
          (ts, c2) = event_timestamps L k c1
      in (t # ts, c2))"

text \<open>
  The generating cells in the order the notebook runs them: seeding, one customer for
  display, the \<open>n\<close> customers, the products' event times, one order for display, the
  \<open>m\<close> orders. \<open>product_ids\<close> is the \<open>product_id\<close> column of the product mapping file.
\<close>

definition generate_dataset ::
  "('g, 'c) library \<Rightarrow> int \<Rightarrow> nat \<Rightarrow> nat \<Rightarrow> string list \<Rightarrow> 'c
     \<Rightarrow> py_error + (customer list \<times> order list)" where
  "generate_dataset L SEED n m product_ids c0 =
     (case generate_customer L 1 (seed L SEED, c0) of
        Inl e \<Rightarrow> Inl e
      | Inr (shown, s1) \<Rightarrow>
         (case customers_loop L [0..<n] [] [] s1 of
            Inl e \<Rightarrow> Inl e
          | Inr (customers, customer_ids, (g2, c2)) \<Rightarrow>
              let (stamps, c3) = event_timestamps L (length product_ids) c2
              in (case generate_order L customer_ids product_ids 1 (g2, c3) of
                    Inl e \<Rightarrow> Inl e
                  | Inr (shown_order, s4) \<Rightarrow>
                     (case orders_loop L customer_ids product_ids [0..<m] [] s4 of
                        Inl e \<Rightarrow> Inl e
                      | Inr (orders, s5) \<Rightarrow> Inr (customers, orders)))))"

text \<open>
  Two runs are compared on everything but the event times: \<open>without_event_times\<close>
  blanks the \<open>event_time\<close> field of every customer and every order of a run's result.
\<close>

definition without_event_times ::
  "py_error + (customer list \<times> order list) \<Rightarrow> py_error + (customer list \<times> order list)" where
  "without_event_times r =
     (case r of
        Inl e \<Rightarrow> Inl e
      | Inr (customers, orders) \<Rightarrow>
          Inr (map (\<lambda>cu. cu\<lparr>event_time := []\<rparr>) customers,
               map (\<lambda>ord. ord\<lparr>o_event_time := []\<rparr>) orders))"

text \<open>
  A small deterministic stand-in for the libraries, to run the model on concrete inputs:
  the generator state and the clock are counters.
\<close>

definition toy_library :: "(nat, nat) library" where
  "toy_library =
     \<lparr>seed = (\<lambda>s. nat \<bar>s\<bar>),
      randbelow = (\<lambda>n g. (g mod n, Suc g)),
      random_random = (\<lambda>g. (of_nat (g mod 64) / 64, Suc g)),
      faker_profile = (\<lambda>g. (\<lparr>p_name = ''Ann Lee'', p_sex = ''F''\<rparr>, Suc g)),
      faker_state = (\<lambda>g. (''Ohio'', Suc g)),
      faker_boolean = (\<lambda>g. (even g, Suc g)),
      faker_date_time_between = (\<lambda>start end g. (start, Suc (Suc g))),
      utc_now_isoformat =
        (\<lambda>c. (''2021-06-01T10:00:00.00'' @ str_nat (c mod 10) @ ''+00:00'', Suc c))\<rparr>"



section \<open>The transformer (notebook: prepare datasets)\<close>

subsection \<open>Age buckets: \<open>pd.cut\<close> and \<open>pd.get_dummies\<close>\<close>

definition bins :: "int list" where
  "bins = [18, 30, 40, 50, 60, 70, 90]"

definition labels :: "string list" where
  "labels = [''18-29'', ''30-39'', ''40-49'', ''50-59'', ''60-69'', ''70-plus'']"

text \<open>
  \<open>pd.cut(x, bins, labels=labels, include_lowest=True)\<close>, with the default
  \<open>right=True\<close>. pandas numbers the bin of a value by \<open>bins.searchsorted(x, side='left')\<close>,
  the count of edges below the value, so that bin \<open>k\<close> is \<open>(bins[k-1], bins[k]]\<close>;
  \<open>include_lowest\<close> puts the first edge itself into bin 1; a value with number 0 or
  \<open>len(bins)\<close> is outside every bin and becomes NaN (here \<open>None\<close>). The edges must
  increase and there must be one label per bin, else ValueError.
\<close>

definition searchsorted_left :: "int list \<Rightarrow> int \<Rightarrow> nat" where
  "searchsorted_left bs x = length (takeWhile (\<lambda>b. b < x) bs)"

definition cut_one :: "int list \<Rightarrow> string list \<Rightarrow> int \<Rightarrow> string option" where
  "cut_one bs ls x =
     (let ids = (if x = hd bs then 1 else searchsorted_left bs x)
      in if ids = length bs \<or> ids = 0 then None else Some (ls ! (ids - 1)))"

definition pd_cut :: "int list \<Rightarrow> int list \<Rightarrow> string list \<Rightarrow> py_error + string option list" where
  "pd_cut xs bs ls =
     (if 2 \<le> length bs \<and> sorted_wrt (<) bs \<and> length ls = length bs - 1
      then Inr (map (cut_one bs ls) xs)
      else Inl ValueError)"

text \<open>
  \<open>pd.get_dummies(column, prefix=p)\<close> on a categorical column: one column per category,
  in the categories' order, named \<open>p_category\<close>, holding 1 in the rows of that category
  and 0 elsewhere. A NaN row has 0 in every column.
\<close>

definition get_dummies :: "string option list \<Rightarrow> string list \<Rightarrow> string \<Rightarrow> (string \<times> int list) list" where
  "get_dummies col cats prefix =
     map (\<lambda>l. (prefix @ ''_'' @ l, map (\<lambda>c. if c = Some l then 1 else 0) col)) cats"

text \<open>
  \<open>customers_df['age_range'] = pd.cut(customers_df.age, bins, labels=labels,
  include_lowest=True)\<close> and \<open>pd.get_dummies(customers_df['age_range'], prefix='age')\<close>:
  the six bucket columns of the transformed customers.
\<close>

definition age_dummies :: "int list \<Rightarrow> py_error + (string \<times> int list) list" where
  "age_dummies ages =
     (case pd_cut ages bins labels of
        Inl e \<Rightarrow> Inl e
      | Inr age_range \<Rightarrow> Inr (get_dummies age_range labels ''age''))"

text \<open>Row \<open>i\<close> of a list of named columns.\<close>

definition row :: "(string \<times> 'v list) list \<Rightarrow> nat \<Rightarrow> 'v list" where
  "row df i = map (\<lambda>c. snd c ! i) df"

subsection \<open>\<open>sklearn.preprocessing.LabelEncoder\<close>\<close>

text \<open>
  \<open>fit_transform(y)\<close> sets the attribute \<open>classes_\<close> (the field \<open>classes\<close>) to
  \<open>np.unique(y)\<close>, the distinct values in ascending order, and returns for every entry
  its index in it. The notebook
  keeps one encoder object and calls \<open>fit_transform\<close> on it for one column after the
  other; what an earlier call stored is overwritten.
\<close>

record 'a label_encoder =
  classes :: "'a list option"

definition index_of :: "'a list \<Rightarrow> 'a \<Rightarrow> nat" where
  "index_of cs v = length (takeWhile (\<lambda>c. c \<noteq> v) cs)"

definition label_fit_transform ::
  "'b label_encoder \<Rightarrow> ('a::linorder) list \<Rightarrow> nat list \<times> 'a label_encoder" where
  "label_fit_transform enc y =
     (let cs = sorted_list_of_set (set y)
      in (map (index_of cs) y, \<lparr>classes = Some cs\<rparr>))"

subsection \<open>\<open>sklearn.preprocessing.MinMaxScaler\<close>\<close>

text \<open>
  \<open>fit_transform(X)\<close> on one column, with the default \<open>feature_range=(0, 1)\<close>. \<open>fit\<close>
  raises ValueError on an empty column; otherwise it computes
  \<open>data_range = data_max - data_min\<close>,
  \<open>scale_ = (1 - 0) / _handle_zeros_in_scale(data_range)\<close> and
  \<open>min_ = 0 - data_min * scale_\<close>, where \<open>_handle_zeros_in_scale\<close> replaces a zero range
  by 1. \<open>transform\<close> computes \<open>X *= scale_; X += min_\<close>. The column is float64, and
  every operation rounds: \<open>rnd\<close> is the rounding, \<open>fl\<close> in the program. The fields
  \<open>data_min\<close>, \<open>data_max\<close>, \<open>data_range\<close>, \<open>scale\<close> and \<open>min_val\<close> are the attributes
  \<open>data_min_\<close>, \<open>data_max_\<close>, \<open>data_range_\<close>, \<open>scale_\<close> and \<open>min_\<close>.
\<close>

record min_max_scaler =
  data_min :: rat
  data_max :: rat
  data_range :: rat
  scale :: rat
  min_val :: rat

definition handle_zeros_in_scale :: "rat \<Rightarrow> rat" where
  "handle_zeros_in_scale s = (if s = 0 then 1 else s)"

definition min_max_fit :: "(rat \<Rightarrow> rat) \<Rightarrow> rat list \<Rightarrow> py_error + min_max_scaler" where
  "min_max_fit rnd X =
     (if X = [] then Inl ValueError
      else let dmin = Min (set X);
               dmax = Max (set X);
               drange = rnd (dmax - dmin);
               s = rnd (1 / handle_zeros_in_scale drange)
           in Inr \<lparr>data_min = dmin, data_max = dmax, data_range = drange,
                    scale = s, min_val = rnd (0 - rnd (dmin * s))\<rparr>)"

definition min_max_transform :: "(rat \<Rightarrow> rat) \<Rightarrow> min_max_scaler \<Rightarrow> rat list \<Rightarrow> rat list" where
  "min_max_transform rnd sc X = map (\<lambda>x. rnd (rnd (x * scale sc) + min_val sc)) X"

definition min_max_fit_transform_with ::
  "(rat \<Rightarrow> rat) \<Rightarrow> rat list \<Rightarrow> py_error + (rat list \<times> min_max_scaler)" where
  "min_max_fit_transform_with rnd X =
     (case min_max_fit rnd X of
        Inl e \<Rightarrow> Inl e
      | Inr sc \<Rightarrow> Inr (min_max_transform rnd sc X, sc))"

text \<open>
  The call of the notebooks, on float64 columns. It refits the scaler object, so what an
  earlier call left in it plays no part.
\<close>

definition min_max_fit_transform ::
  "min_max_scaler option \<Rightarrow> rat list \<Rightarrow> py_error + (rat list \<times> min_max_scaler)" where
  "min_max_fit_transform old X = min_max_fit_transform_with fl X"

section \<open>Model training: the target column first\<close>

text \<open>
  A data frame is the list of its columns, each a name and the values. The frames of the
  notebooks come from \<open>pd.read_csv\<close>, which makes the column names distinct.
  \<open>df.pop(item)\<close> returns the column and deletes it from the frame, KeyError when there
  is none. \<open>df.insert(loc, column, value)\<close> puts a column at position \<open>loc\<close>: ValueError
  when the name is already there, IndexError when \<open>loc\<close> is beyond the last position.
\<close>

type_synonym 'v dataframe = "(string \<times> 'v list) list"

definition df_pop :: "'v dataframe \<Rightarrow> string \<Rightarrow> py_error + ('v list \<times> 'v dataframe)" where
  "df_pop df item =
     (case map_of df item of
        None \<Rightarrow> Inl KeyError
      | Some col \<Rightarrow> Inr (col, filter (\<lambda>c. fst c \<noteq> item) df))"

definition df_insert :: "'v dataframe \<Rightarrow> nat \<Rightarrow> string \<Rightarrow> 'v list \<Rightarrow> py_error + 'v dataframe" where
  "df_insert df loc column v =
     (if column \<in> set (map fst df) then Inl ValueError
      else if length df < loc then Inl IndexError
      else Inr (take loc df @ [(column, v)] @ drop loc df))"

text \<open>
  \<open>first_column = df.pop('is_reordered'); df.insert(0, 'is_reordered', first_column)\<close>
\<close>

definition move_target_first :: "'v dataframe \<Rightarrow> py_error + 'v dataframe" where
  "move_target_first df =
     (case df_pop df ''is_reordered'' of
        Inl e \<Rightarrow> Inl e
      | Inr (first_column, df') \<Rightarrow> df_insert df' 0 ''is_reordered'' first_column)"

section \<open>Batch ingestion\<close>

text \<open>
  \<open>ingest_data\<close> of the processing script: it reads and transforms the input files,
  calls \<open>fg.ingest(data_frame=df, max_processes=..., max_workers=..., wait=True)\<close> and
  asserts \<open>len(response.failed_rows) == 0\<close>. The feature store is outside the repository:
  \<open>loaded\<close> is what reading and transforming gave, \<open>fg_ingest\<close> the call, whose response
  holds the zero-based indices of the rows that failed.
\<close>

record ingestion_manager =
  failed_rows :: "nat list"

definition ingest_data ::
  "py_error + 'df \<Rightarrow> ('df \<Rightarrow> nat \<Rightarrow> nat \<Rightarrow> py_error + ingestion_manager) \<Rightarrow> nat \<Rightarrow> nat
     \<Rightarrow> py_error + unit" where
  "ingest_data loaded fg_ingest num_processes num_workers =
     (case loaded of
        Inl e \<Rightarrow> Inl e
      | Inr df \<Rightarrow>
         (case fg_ingest df num_processes num_workers of
            Inl e \<Rightarrow> Inl e
          | Inr response \<Rightarrow>
              if length (failed_rows response) = 0 then Inr () else Inl AssertionError))"

section \<open>Properties of the float model\<close>

subsection \<open>The binary exponent\<close>

lemma pow2_powi: "pow2 e = 2 powi e"
  by (simp add: pow2_def power_int_def power_divide)

lemma pow2_pos: "0 < pow2 e"
  by (simp add: pow2_powi)

lemma pow2_add: "pow2 (a + b) = pow2 a * pow2 b"
  by (simp add: pow2_powi power_int_add)

lemma pow2_Suc: "pow2 (e + 1) = 2 * pow2 e"
  by (simp add: pow2_add) (simp add: pow2_def)

lemma pow2_mono: "a \<le> b \<Longrightarrow> pow2 a \<le> pow2 b"
  by (simp add: pow2_powi power_int_increasing)

lemma pow2_less_cancel: "pow2 a < pow2 b \<Longrightarrow> a < b"
  using pow2_mono [of b a] by (cases "a < b") auto

lemma pow2_nat: "pow2 (int n) = 2 ^ n"
  by (simp add: pow2_def)

lemma bit_length_bounds: "0 < n \<Longrightarrow> 2 ^ (bit_length n - 1) \<le> n \<and> n < 2 ^ bit_length n"
proof (induction n rule: bit_length.induct)
  case (1 n)
  show ?case
  proof (cases "n div 2 = 0")
    case True
    with "1.prems" have "n = 1" by (cases n) (auto simp: div_eq_0_iff)
    then show ?thesis by (simp add: bit_length.simps)
  next
    case False
    with "1.IH" "1.prems" have ih: "2 ^ (bit_length (n div 2) - 1) \<le> n div 2" "n div 2 < 2 ^ bit_length (n div 2)"
      by auto
    have bl: "bit_length n = Suc (bit_length (n div 2))" using "1.prems" by (simp add: bit_length.simps [of n])
    have pos: "0 < bit_length (n div 2)" using False by (simp add: bit_length.simps [of "n div 2"])
    then obtain k where k: "bit_length (n div 2) = Suc k" by (cases "bit_length (n div 2)") auto
    from ih k have "2 * 2 ^ k \<le> n" "n < 2 * 2 ^ Suc k" by auto
    with bl k show ?thesis by simp
  qed
qed

lemma bit_length_pos: "0 < n \<Longrightarrow> 0 < bit_length n"
  by (simp add: bit_length.simps [of n])


lemma pow_le_of_nat: "2 ^ a \<le> (n::nat) \<Longrightarrow> (2::rat) ^ a \<le> of_nat n"
proof -
  assume "2 ^ a \<le> n"
  then have "(of_nat (2 ^ a) :: rat) \<le> of_nat n" by (rule of_nat_mono)
  then show ?thesis by simp
qed

lemma of_nat_less_pow: "(n::nat) < 2 ^ a \<Longrightarrow> of_nat n + 1 \<le> (2::rat) ^ a"
proof -
  assume "n < 2 ^ a"
  then have "Suc n \<le> 2 ^ a" by simp
  then have "(of_nat (Suc n) :: rat) \<le> of_nat (2 ^ a)" by (rule of_nat_mono)
  then show ?thesis by simp
qed

lemma expo_bounds_ge1:
  assumes "1 \<le> x"
  shows "pow2 (expo x) \<le> x \<and> x < pow2 (expo x + 1)"
proof -
  define n where "n = nat \<lfloor>x\<rfloor>"
  define k where "k = bit_length n"
  from assms have fl1: "1 \<le> \<lfloor>x\<rfloor>" by simp
  then have n1: "0 < n" by (simp add: n_def)
  have "of_nat n = (of_int \<lfloor>x\<rfloor> :: rat)" using fl1 by (simp add: n_def)
  with floor_correct [of x] have nx: "of_nat n \<le> x" "x < of_nat n + 1" by simp_all
  from bit_length_bounds [OF n1] have b: "2 ^ (k - 1) \<le> n" "n < 2 ^ k" by (simp_all add: k_def)
  from bit_length_pos [OF n1] have kp: "0 < k" by (simp add: k_def)
  have e: "expo x = int (k - 1)" using assms kp by (simp add: expo_def n_def k_def)
  have p1: "pow2 (expo x) = 2 ^ (k - 1)" by (simp only: e pow2_nat)
  have "expo x + 1 = int k" using e kp by simp
  then have p2: "pow2 (expo x + 1) = 2 ^ k" by (simp only: pow2_nat)
  from pow_le_of_nat [OF b(1)] nx(1) have "(2::rat) ^ (k - 1) \<le> x" by linarith
  moreover from of_nat_less_pow [OF b(2)] nx(2) have "x < 2 ^ k" by linarith
  ultimately show ?thesis by (simp only: p1 p2)
qed


lemma expo_bounds_lt1:
  assumes "0 < x" "x < 1"
  shows "pow2 (expo x) \<le> x \<and> x < pow2 (expo x + 1)"
proof -
  define q where "q = 1 / x"
  define c where "c = nat \<lceil>q\<rceil>"
  define j where "j = bit_length (c - 1)"
  from assms have q1: "1 < q" by (simp add: q_def)
  then have cl: "2 \<le> \<lceil>q\<rceil>" by (simp add: le_ceiling_iff)
  then have c2: "2 \<le> c" unfolding c_def by linarith
  have "of_nat c = (of_int \<lceil>q\<rceil> :: rat)" using cl by (simp add: c_def)
  with ceiling_correct [of q] have cq: "q \<le> of_nat c" "of_nat c - 1 < q" by simp_all
  from c2 have c1: "0 < c - 1" by simp
  from bit_length_bounds [OF c1] have b: "2 ^ (j - 1) \<le> c - 1" "c - 1 < 2 ^ j" by (simp_all add: j_def)
  from bit_length_pos [OF c1] have jp: "0 < j" by (simp add: j_def)
  have e: "expo x = - int j" using assms by (simp add: expo_def q_def c_def j_def)
  have cm: "(of_nat (c - 1) :: rat) = of_nat c - 1" using c2 by (simp add: of_nat_diff)
  from of_nat_less_pow [OF b(2)] cm cq(1) have qle: "q \<le> 2 ^ j" by linarith
  from pow_le_of_nat [OF b(1)] cm cq(2) have qgt: "2 ^ (j - 1) < q" by linarith
  have p1: "pow2 (expo x) = 1 / 2 ^ j" by (simp add: e pow2_powi power_int_minus_divide)
  have "expo x + 1 = - int (j - 1)" using e jp by simp
  then have p2: "pow2 (expo x + 1) = 1 / 2 ^ (j - 1)"
    by (simp add: pow2_powi power_int_minus_divide)
  have xq: "x = 1 / q" by (simp add: q_def)
  have q0: "0 < q" using q1 by simp
  have "1 / 2 ^ j \<le> 1 / q" using qle q0 by (intro divide_left_mono) simp_all
  moreover have "1 / q < 1 / 2 ^ (j - 1)" using qgt q0 by (intro divide_strict_left_mono) simp_all
  ultimately show ?thesis by (simp only: p1 p2 xq [symmetric]) 
qed

lemma expo_bounds: "0 < x \<Longrightarrow> pow2 (expo x) \<le> x \<and> x < pow2 (expo x + 1)"
  using expo_bounds_ge1 [of x] expo_bounds_lt1 [of x] by (cases "1 \<le> x") auto

lemma expo_unique:
  assumes "0 < x" "pow2 k \<le> x" "x < pow2 (k + 1)"
  shows "expo x = k"
proof -
  from expo_bounds [OF assms(1)] have b: "pow2 (expo x) \<le> x" "x < pow2 (expo x + 1)" by simp_all
  from b(1) assms(3) have "pow2 (expo x) < pow2 (k + 1)" by simp
  then have "expo x < k + 1" by (rule pow2_less_cancel)
  moreover from assms(2) b(2) have "pow2 k < pow2 (expo x + 1)" by simp
  then have "k < expo x + 1" by (rule pow2_less_cancel)
  ultimately show ?thesis by simp
qed

lemma expo_mono: "0 < x \<Longrightarrow> x \<le> y \<Longrightarrow> expo x \<le> expo y"
proof -
  assume a: "0 < x" "x \<le> y"
  then have y: "0 < y" by simp
  from expo_bounds [OF a(1)] expo_bounds [OF y] a(2)
  have "pow2 (expo x) < pow2 (expo y + 1)" by simp
  then have "expo x < expo y + 1" by (rule pow2_less_cancel)
  then show ?thesis by simp
qed

subsection \<open>Rounding\<close>

lemma rhe_floor: "\<lfloor>y\<rfloor> \<le> round_half_even y \<and> round_half_even y \<le> \<lfloor>y\<rfloor> + 1"
  by (simp add: round_half_even_def Let_def)

lemma rhe_of_int: "round_half_even (of_int m) = m"
  by (simp add: round_half_even_def Let_def)

lemma rhe_ge: "of_int m \<le> y \<Longrightarrow> m \<le> round_half_even y"
proof -
  assume "of_int m \<le> y"
  then have "m \<le> \<lfloor>y\<rfloor>" by (simp add: le_floor_iff)
  with rhe_floor [of y] show ?thesis by linarith
qed

lemma rhe_le: "y \<le> of_int m \<Longrightarrow> round_half_even y \<le> m"
proof (cases "y = of_int m")
  case True
  then show ?thesis by (simp add: rhe_of_int)
next
  case False
  assume "y \<le> of_int m"
  with False have "y < of_int m" by simp
  then have "\<lfloor>y\<rfloor> < m" by (simp add: floor_less_iff)
  with rhe_floor [of y] show ?thesis by linarith
qed

lemma rhe_mono: "x \<le> y \<Longrightarrow> round_half_even x \<le> round_half_even y"
proof (cases "\<lfloor>x\<rfloor> < \<lfloor>y\<rfloor>")
  case True
  with rhe_floor [of x] rhe_floor [of y] show ?thesis by linarith
next
  case False
  assume xy: "x \<le> y"
  then have "\<lfloor>x\<rfloor> \<le> \<lfloor>y\<rfloor>" by (rule floor_mono)
  with False have eq: "\<lfloor>x\<rfloor> = \<lfloor>y\<rfloor>" by simp
  with xy have "x - of_int \<lfloor>y\<rfloor> \<le> y - of_int \<lfloor>y\<rfloor>" by simp
  then show ?thesis
    by (auto simp: round_half_even_def Let_def eq)
qed

text \<open>The scaled significand of a positive number lies between 2^52 and 2^53.\<close>

lemma pow2_52: "pow2 e = 2 ^ 52 * pow2 (e - 52)"
proof -
  have "pow2 e = pow2 (52 + (e - 52))" by simp
  also have "\<dots> = pow2 52 * pow2 (e - 52)" by (rule pow2_add)
  finally show ?thesis by (simp add: pow2_def)
qed

lemma significand_bounds:
  assumes "0 < x"
  shows "2 ^ 52 \<le> x / pow2 (expo x - 52) \<and> x / pow2 (expo x - 52) < 2 ^ 53"
proof -
  let ?u = "pow2 (expo x - 52)"
  have u: "0 < ?u" by (rule pow2_pos)
  from expo_bounds [OF assms] have "pow2 (expo x) \<le> x" "x < pow2 (expo x + 1)" by simp_all
  then have "2 ^ 52 * ?u \<le> x" "x < 2 ^ 53 * ?u"
    using pow2_52 [of "expo x"] pow2_Suc [of "expo x"] by simp_all
  then show ?thesis using u by (simp add: pos_le_divide_eq pos_divide_less_eq)
qed

lemma fl_pos_eq:
  "0 < x \<Longrightarrow> fl x = of_int (round_half_even (x / pow2 (expo x - 52))) * pow2 (expo x - 52)"
  by (simp add: fl_def Let_def)

lemma fl_range:
  assumes "0 < x"
  shows "pow2 (expo x) \<le> fl x \<and> fl x \<le> pow2 (expo x + 1)"
proof -
  let ?u = "pow2 (expo x - 52)"
  let ?M = "round_half_even (x / ?u)"
  have u: "0 < ?u" by (rule pow2_pos)
  from significand_bounds [OF assms]
  have sb: "of_int (2 ^ 52) \<le> x / ?u" "x / ?u \<le> of_int (2 ^ 53)" by simp_all
  have "2 ^ 52 \<le> ?M" "?M \<le> 2 ^ 53"
    using rhe_ge [OF sb(1)] rhe_le [OF sb(2)] by simp_all
  then have "(of_int (2 ^ 52) :: rat) \<le> of_int ?M" "(of_int ?M :: rat) \<le> of_int (2 ^ 53)"
    by (simp_all only: of_int_le_iff)
  then have "2 ^ 52 * ?u \<le> of_int ?M * ?u" "of_int ?M * ?u \<le> 2 ^ 53 * ?u"
    using u by simp_all
  then show ?thesis
    using pow2_52 [of "expo x"] pow2_Suc [of "expo x"] fl_pos_eq [OF assms] by simp
qed

lemma fl_pos: "0 < x \<Longrightarrow> 0 < fl x"
  using fl_range [of x] pow2_pos [of "expo x"] by simp

lemma fl_zero: "fl 0 = 0"
  by (simp add: fl_def)

lemma fl_minus: "fl (- x) = - fl x"
  by (simp add: fl_def Let_def)

lemma fl_mono_pos:
  assumes "0 < x" "x \<le> y"
  shows "fl x \<le> fl y"
proof -
  from assms have y: "0 < y" by simp
  from expo_mono [OF assms] have le: "expo x \<le> expo y" .
  show ?thesis
  proof (cases "expo x = expo y")
    case True
    let ?u = "pow2 (expo y - 52)"
    have u: "0 < ?u" by (rule pow2_pos)
    from assms(2) u have "x / ?u \<le> y / ?u" by (simp add: divide_right_mono)
    then have "round_half_even (x / ?u) \<le> round_half_even (y / ?u)" by (rule rhe_mono)
    then have "(of_int (round_half_even (x / ?u)) :: rat) \<le> of_int (round_half_even (y / ?u))"
      by (simp only: of_int_le_iff)
    then have "of_int (round_half_even (x / ?u)) * ?u \<le> of_int (round_half_even (y / ?u)) * ?u"
      using u by simp
    then show ?thesis using fl_pos_eq [OF assms(1)] fl_pos_eq [OF y] True by simp
  next
    case False
    with le have "expo x + 1 \<le> expo y" by simp
    then have "pow2 (expo x + 1) \<le> pow2 (expo y)" by (rule pow2_mono)
    with fl_range [OF assms(1)] fl_range [OF y] show ?thesis by linarith
  qed
qed

lemma fl_nonneg: "0 \<le> x \<Longrightarrow> 0 \<le> fl x"
  using fl_pos [of x] fl_zero by (cases "x = 0") auto

lemma fl_mono: "x \<le> y \<Longrightarrow> fl x \<le> fl y"
proof -
  assume xy: "x \<le> y"
  consider "0 < x" | "x \<le> 0" "0 \<le> y" | "y < 0" by linarith
  then show ?thesis
  proof cases
    case 1
    then show ?thesis using xy by (rule fl_mono_pos)
  next
    case 2
    from 2(1) have "0 \<le> fl (- x)" by (intro fl_nonneg) simp
    then have "fl x \<le> 0" by (simp add: fl_minus)
    with fl_nonneg [OF 2(2)] show ?thesis by simp
  next
    case 3
    with xy have "0 < - y" "- y \<le> - x" by simp_all
    then have "fl (- y) \<le> fl (- x)" by (rule fl_mono_pos)
    then show ?thesis by (simp add: fl_minus)
  qed
qed

lemma fl_idem_pos:
  assumes "0 < x"
  shows "fl (fl x) = fl x"
proof -
  let ?e = "expo x"
  let ?u = "pow2 (?e - 52)"
  let ?M = "round_half_even (x / ?u)"
  have u: "0 < ?u" by (rule pow2_pos)
  have fx: "fl x = of_int ?M * ?u" by (rule fl_pos_eq [OF assms])
  have fp: "0 < fl x" by (rule fl_pos [OF assms])
  from fl_range [OF assms] have r: "pow2 ?e \<le> fl x" "fl x \<le> pow2 (?e + 1)" by simp_all
  show ?thesis
  proof (cases "fl x = pow2 (?e + 1)")
    case True
    have "pow2 (?e + 1) < pow2 (?e + 1 + 1)" using pow2_Suc [of "?e + 1"] pow2_pos [of "?e + 1"] by simp
    with True have ex: "expo (fl x) = ?e + 1" by (intro expo_unique fp) simp_all
    have "pow2 (?e + 1) = 2 ^ 52 * pow2 (?e + 1 - 52)" by (rule pow2_52)
    then have "fl x / pow2 (?e + 1 - 52) = of_int (2 ^ 52)" using True pow2_pos [of "?e + 1 - 52"] by simp
    then have "round_half_even (fl x / pow2 (?e + 1 - 52)) = 2 ^ 52" by (simp only: rhe_of_int)
    then have "fl (fl x) = 2 ^ 52 * pow2 (?e + 1 - 52)" using fl_pos_eq [OF fp] ex by simp
    with pow2_52 [of "?e + 1"] True show ?thesis by simp
  next
    case False
    with r have "fl x < pow2 (?e + 1)" by simp
    with r(1) have ex: "expo (fl x) = ?e" by (intro expo_unique fp)
    have "fl x / ?u = of_int ?M" using fx u by simp
    then have "round_half_even (fl x / ?u) = ?M" by (simp only: rhe_of_int)
    then show ?thesis using fl_pos_eq [OF fp] ex fx by simp
  qed
qed

lemma fl_idem: "fl (fl x) = fl x"
proof -
  consider "0 < x" | "x = 0" | "0 < - x" by linarith
  then show ?thesis
  proof cases
    case 1 then show ?thesis by (rule fl_idem_pos)
  next
    case 2 then show ?thesis by (simp add: fl_zero)
  next
    case 3
    then have "fl (fl (- x)) = fl (- x)" by (rule fl_idem_pos)
    then show ?thesis by (simp add: fl_minus)
  qed
qed

lemma fl_one: "fl 1 = 1"
  by code_simp

lemma fl_102: "fl 102 = 102"
  by code_simp

lemma toy_library_contract: "library_contract toy_library"
  by (simp add: library_contract_def toy_library_def)

section \<open>Properties of the generator\<close>

subsection \<open>Foreign keys\<close>

lemma choice_mem: "choice L xs g = Inr (x, g') \<Longrightarrow> x \<in> set xs"
  by (auto simp: choice_def Let_def split: if_splits prod.splits)

lemma generate_order_refs:
  "generate_order L cids pids i s = Inr (ord, s') \<Longrightarrow>
     o_customer_id ord \<in> set cids \<and> product_id ord \<in> set pids"
  by (auto simp: generate_order_def Let_def split: prod.splits sum.splits dest: choice_mem)

lemma orders_loop_refs:
  "orders_loop L cids pids idx acc s = Inr (orders, s') \<Longrightarrow>
   list_all (\<lambda>ord. o_customer_id ord \<in> set cids \<and> product_id ord \<in> set pids) acc \<Longrightarrow>
   list_all (\<lambda>ord. o_customer_id ord \<in> set cids \<and> product_id ord \<in> set pids) orders"
proof (induction idx arbitrary: acc s)
  case Nil
  then show ?case by simp
next
  case (Cons i rest)
  from Cons.prems(1) obtain ord s1 where
    g: "generate_order L cids pids (int i + 1) s = Inr (ord, s1)" and
    r: "orders_loop L cids pids rest (acc @ [ord]) s1 = Inr (orders, s')"
    by (auto split: sum.splits)
  from generate_order_refs [OF g] Cons.prems(2)
  have "list_all (\<lambda>ord. o_customer_id ord \<in> set cids \<and> product_id ord \<in> set pids) (acc @ [ord])"
    by simp
  with Cons.IH [OF r] show ?case .
qed

lemma customers_loop_ids:
  "customers_loop L idx cs ids s = Inr (cs', ids', s') \<Longrightarrow> ids = map customer_id cs \<Longrightarrow>
   ids' = map customer_id cs'"
proof (induction idx arbitrary: cs ids s)
  case Nil
  then show ?case by auto
next
  case (Cons i rest)
  from Cons.prems(1) obtain cu s1 where
    r: "customers_loop L rest (cs @ [cu]) (ids @ [customer_id cu]) s1 = Inr (cs', ids', s')"
    by (auto split: sum.splits)
  show ?case by (rule Cons.IH [OF r]) (simp add: Cons.prems(2))
qed

text \<open>
  C3. Whenever the generating cells run through, every order's \<open>customer_id\<close> is the
  identifier of one of the customers generated before it, and its \<open>product_id\<close> is one of
  the identifiers read from the product mapping file.
\<close>

theorem order_foreign_keys_resolve:
  assumes "generate_dataset L SEED n m product_ids c0 = Inr (customers, orders)"
  shows "list_all (\<lambda>ord. o_customer_id ord \<in> set (map customer_id customers)
                        \<and> product_id ord \<in> set product_ids) orders"
proof -
  from assms obtain s1 customer_ids g2 c2 s4 s5 where
    cl: "customers_loop L [0..<n] [] [] s1 = Inr (customers, customer_ids, (g2, c2))" and
    ol: "orders_loop L customer_ids product_ids [0..<m] [] s4 = Inr (orders, s5)"
    by (auto simp: generate_dataset_def Let_def split: sum.splits prod.splits)
  from customers_loop_ids [OF cl] have "customer_ids = map customer_id customers" by simp
  with orders_loop_refs [OF ol] show ?thesis by simp
qed

theorem order_foreign_keys_resolve_witness:
  "(case generate_dataset toy_library 123 2 3 [''P7'', ''P9''] 0 of
      Inl e \<Rightarrow> False
    | Inr (customers, orders) \<Rightarrow>
        map customer_id customers = [''C1'', ''C2''] \<and>
        map o_customer_id orders = [''C1'', ''C2'', ''C1''] \<and>
        list_all (\<lambda>ord. o_customer_id ord \<in> set (map customer_id customers)
                        \<and> product_id ord \<in> set [''P7'', ''P9'']) orders)"
proof -
  have run: "(case generate_dataset toy_library 123 2 3 [''P7'', ''P9''] 0 of
      Inl e \<Rightarrow> False
    | Inr (customers, orders) \<Rightarrow>
        map customer_id customers = [''C1'', ''C2''] \<and>
        map o_customer_id orders = [''C1'', ''C2'', ''C1''])"
    by code_simp
  then obtain customers orders where
    r: "generate_dataset toy_library 123 2 3 [''P7'', ''P9''] 0 = Inr (customers, orders)"
    by (auto split: sum.splits)
  from order_foreign_keys_resolve [OF r] run r show ?thesis by simp
qed

subsection \<open>The generating cells run through\<close>

text \<open>
  With draws as the \<open>random\<close> module promises them, at least one customer and a
  non-empty product file, generation raises nothing and returns \<open>n\<close> customers and \<open>m\<close>
  orders.
\<close>

lemma choice_returns:
  assumes "library_contract L" "seq \<noteq> []"
  shows "\<exists>x g'. choice L seq g = Inr (x, g')"
proof -
  from assms have "fst (randbelow L (length seq) g) < length seq"
    by (simp add: library_contract_def)
  with assms(2) show ?thesis
    by (cases "randbelow L (length seq) g") (simp add: choice_def)
qed

lemma generate_customer_returns:
  "\<exists>cu s'. generate_customer L i s = Inr (cu, s') \<and> customer_id cu = ''C'' @ str_int i"
  by (cases s) (auto simp: generate_customer_def randint_def Let_def split: prod.splits)

lemma customers_loop_returns:
  "\<exists>cs ids s'. customers_loop L idx acc ids0 s = Inr (cs, ids, s')
       \<and> length cs = length acc + length idx \<and> length ids = length ids0 + length idx"
proof (induction idx arbitrary: acc ids0 s)
  case Nil
  then show ?case by simp
next
  case (Cons i rest)
  from generate_customer_returns [of L "int i + 1" s] obtain cu s1 where
    g: "generate_customer L (int i + 1) s = Inr (cu, s1)" by blast
  from Cons.IH [of "acc @ [cu]" "ids0 @ [customer_id cu]" s1] g show ?case by auto
qed

lemma generate_order_returns:
  assumes "library_contract L" "cids \<noteq> []" "pids \<noteq> []"
  shows "\<exists>ord s'. generate_order L cids pids i s = Inr (ord, s')"
proof -
  obtain g c where s: "s = (g, c)" by (cases s)
  from choice_returns [OF assms(1,2)] obtain cid g1 where a: "choice L cids g = Inr (cid, g1)" by blast
  from choice_returns [OF assms(1,3)] obtain pid g2 where b: "choice L pids g1 = Inr (pid, g2)" by blast
  obtain n g3 where c: "randint L 1 101 g2 = Inr (n, g3)"
    by (cases "randbelow L 101 g2") (simp add: randint_def)
  have "reorder_pool \<noteq> []" by (simp add: reorder_pool_def)
  from choice_returns [OF assms(1) this] obtain r g5 where
    d: "choice L reorder_pool (snd (random_random L g3)) = Inr (r, g5)" by blast
  from a b c d show ?thesis
    by (auto simp: generate_order_def s Let_def split: prod.splits)
qed

lemma orders_loop_returns:
  assumes "library_contract L" "cids \<noteq> []" "pids \<noteq> []"
  shows "\<exists>os s'. orders_loop L cids pids idx acc s = Inr (os, s') \<and> length os = length acc + length idx"
proof (induction idx arbitrary: acc s)
  case Nil
  then show ?case by simp
next
  case (Cons i rest)
  from generate_order_returns [OF assms, of "int i + 1" s] obtain ord s1 where
    g: "generate_order L cids pids (int i + 1) s = Inr (ord, s1)" by blast
  from Cons.IH [of "acc @ [ord]" s1] g show ?case by auto
qed

lemma generate_dataset_returns:
  assumes "library_contract L" "0 < n" "product_ids \<noteq> []"
  shows "\<exists>customers orders. generate_dataset L SEED n m product_ids c0 = Inr (customers, orders)
           \<and> length customers = n \<and> length orders = m"
proof -
  from generate_customer_returns [of L 1 "(seed L SEED, c0)"] obtain shown s1 where
    a: "generate_customer L 1 (seed L SEED, c0) = Inr (shown, s1)" by blast
  from customers_loop_returns [of L "[0..<n]" "[]" "[]" s1] obtain cs ids g2 c2 where
    b: "customers_loop L [0..<n] [] [] s1 = Inr (cs, ids, (g2, c2))" and
    lc: "length cs = n" and li: "length ids = n"
    by (metis (no_types, lifting) add_0 length_upt list.size(3) minus_nat.diff_0 surj_pair)
  obtain stamps c3 where e: "event_timestamps L (length product_ids) c2 = (stamps, c3)"
    by (cases "event_timestamps L (length product_ids) c2")
  from li assms(2) have ne: "ids \<noteq> []" by auto
  from generate_order_returns [OF assms(1) ne assms(3), of 1 "(g2, c3)"] obtain so s4 where
    c: "generate_order L ids product_ids 1 (g2, c3) = Inr (so, s4)" by blast
  from orders_loop_returns [OF assms(1) ne assms(3), of "[0..<m]" "[]" s4] obtain os s5 where
    d: "orders_loop L ids product_ids [0..<m] [] s4 = Inr (os, s5)" and lo: "length os = m"
    by auto
  from a b c d e lc lo show ?thesis by (simp add: generate_dataset_def)
qed

subsection \<open>Reproducibility\<close>

lemma generate_customer_clock:
  "(case generate_customer L i (g, ca) of
      Inl e \<Rightarrow> generate_customer L i (g, cb) = Inl e
    | Inr (cu, (g', ca')) \<Rightarrow>
        (\<exists>ev cb'. generate_customer L i (g, cb) = Inr (cu\<lparr>event_time := ev\<rparr>, (g', cb'))))"
  by (auto simp: generate_customer_def Let_def split: prod.splits sum.splits)

lemma generate_order_clock:
  "(case generate_order L cids pids i (g, ca) of
      Inl e \<Rightarrow> generate_order L cids pids i (g, cb) = Inl e
    | Inr (ord, (g', ca')) \<Rightarrow>
        (\<exists>ev cb'. generate_order L cids pids i (g, cb) = Inr (ord\<lparr>o_event_time := ev\<rparr>, (g', cb'))))"
  by (auto simp: generate_order_def Let_def split: prod.splits sum.splits)

lemma customers_loop_clock:
  "map (\<lambda>cu. cu\<lparr>event_time := []\<rparr>) acc1 = map (\<lambda>cu. cu\<lparr>event_time := []\<rparr>) acc2 \<Longrightarrow>
   (case customers_loop L idx acc1 ids (g, ca) of
      Inl e \<Rightarrow> customers_loop L idx acc2 ids (g, cb) = Inl e
    | Inr (cs1, ids', (g', ca')) \<Rightarrow>
        (\<exists>cs2 cb'. customers_loop L idx acc2 ids (g, cb) = Inr (cs2, ids', (g', cb')) \<and>
           map (\<lambda>cu. cu\<lparr>event_time := []\<rparr>) cs1 = map (\<lambda>cu. cu\<lparr>event_time := []\<rparr>) cs2))"
proof (induction idx arbitrary: acc1 acc2 ids g ca cb)
  case Nil
  then show ?case by simp
next
  case (Cons i rest)
  show ?case
  proof (cases "generate_customer L (int i + 1) (g, ca)")
    case (Inl e)
    with generate_customer_clock [where L = L and i = "int i + 1" and g = g and ca = ca and cb = cb] show ?thesis by simp
  next
    case (Inr r)
    then obtain cu g' ca' where r: "generate_customer L (int i + 1) (g, ca) = Inr (cu, (g', ca'))"
      by (cases r) auto
    with generate_customer_clock [where L = L and i = "int i + 1" and g = g and ca = ca and cb = cb] obtain ev cb' where
      r2: "generate_customer L (int i + 1) (g, cb) = Inr (cu\<lparr>event_time := ev\<rparr>, (g', cb'))"
      by auto
    have acc: "map (\<lambda>cu. cu\<lparr>event_time := []\<rparr>) (acc1 @ [cu])
             = map (\<lambda>cu. cu\<lparr>event_time := []\<rparr>) (acc2 @ [cu\<lparr>event_time := ev\<rparr>])"
      using Cons.prems by simp
    from Cons.IH [OF acc, where ids = "ids @ [customer_id cu]" and g = g' and ca = ca' and cb = cb'] r r2 show ?thesis
      by (auto split: sum.splits)
  qed
qed

lemma orders_loop_clock:
  "map (\<lambda>ord. ord\<lparr>o_event_time := []\<rparr>) acc1 = map (\<lambda>ord. ord\<lparr>o_event_time := []\<rparr>) acc2 \<Longrightarrow>
   (case orders_loop L cids pids idx acc1 (g, ca) of
      Inl e \<Rightarrow> orders_loop L cids pids idx acc2 (g, cb) = Inl e
    | Inr (os1, s1) \<Rightarrow>
        (\<exists>os2 s2. orders_loop L cids pids idx acc2 (g, cb) = Inr (os2, s2) \<and>
           map (\<lambda>ord. ord\<lparr>o_event_time := []\<rparr>) os1 = map (\<lambda>ord. ord\<lparr>o_event_time := []\<rparr>) os2))"
proof (induction idx arbitrary: acc1 acc2 g ca cb)
  case Nil
  then show ?case by simp
next
  case (Cons i rest)
  show ?case
  proof (cases "generate_order L cids pids (int i + 1) (g, ca)")
    case (Inl e)
    with generate_order_clock [where L = L and cids = cids and pids = pids and i = "int i + 1" and g = g and ca = ca and cb = cb] show ?thesis by simp
  next
    case (Inr r)
    then obtain ord g' ca' where r: "generate_order L cids pids (int i + 1) (g, ca) = Inr (ord, (g', ca'))"
      by (cases r) auto
    with generate_order_clock [where L = L and cids = cids and pids = pids and i = "int i + 1" and g = g and ca = ca and cb = cb] obtain ev cb' where
      r2: "generate_order L cids pids (int i + 1) (g, cb) = Inr (ord\<lparr>o_event_time := ev\<rparr>, (g', cb'))"
      by auto
    have acc: "map (\<lambda>ord. ord\<lparr>o_event_time := []\<rparr>) (acc1 @ [ord])
             = map (\<lambda>ord. ord\<lparr>o_event_time := []\<rparr>) (acc2 @ [ord\<lparr>o_event_time := ev\<rparr>])"
      using Cons.prems by simp
    from Cons.IH [OF acc, where g = g' and ca = ca' and cb = cb'] r r2 show ?thesis
      by (auto split: sum.splits)
  qed
qed

text \<open>
  C2. Two runs of the generating cells with the same seed, the same counts and the same
  product file, started at different states of the wall clock, end alike (both fail with
  the same error, or both return) and agree on every attribute of every customer and
  every order other than the event times.
\<close>

theorem generation_reproducible:
  "without_event_times (generate_dataset L SEED n m product_ids c1)
     = without_event_times (generate_dataset L SEED n m product_ids c2)"
proof (cases "generate_customer L 1 (seed L SEED, c1)")
  case (Inl e)
  with generate_customer_clock [where L = L and i = 1 and g = "seed L SEED" and ca = c1 and cb = c2] show ?thesis
    by (simp add: generate_dataset_def)
next
  case (Inr r)
  then obtain cu g1 c1a where a1: "generate_customer L 1 (seed L SEED, c1) = Inr (cu, (g1, c1a))"
    by (cases r) auto
  with generate_customer_clock [where L = L and i = 1 and g = "seed L SEED" and ca = c1 and cb = c2] obtain ev c2a where
    a2: "generate_customer L 1 (seed L SEED, c2) = Inr (cu\<lparr>event_time := ev\<rparr>, (g1, c2a))"
    by auto
  show ?thesis
  proof (cases "customers_loop L [0..<n] [] [] (g1, c1a)")
    case (Inl e)
    with customers_loop_clock [where ?acc1.0 = "[]" and ?acc2.0 = "[]" and L = L and idx = "[0..<n]" and ids = "[]" and g = g1 and ca = c1a and cb = c2a] a1 a2 show ?thesis
      by (simp add: generate_dataset_def)
  next
    case (Inr r)
    then obtain cs1 ids g2 c1b where b1: "customers_loop L [0..<n] [] [] (g1, c1a) = Inr (cs1, ids, (g2, c1b))"
      by (cases r) auto
    with customers_loop_clock [where ?acc1.0 = "[]" and ?acc2.0 = "[]" and L = L and idx = "[0..<n]" and ids = "[]" and g = g1 and ca = c1a and cb = c2a] obtain cs2 c2b where
      b2: "customers_loop L [0..<n] [] [] (g1, c2a) = Inr (cs2, ids, (g2, c2b))" and
      cs: "map (\<lambda>cu. cu\<lparr>event_time := []\<rparr>) cs1 = map (\<lambda>cu. cu\<lparr>event_time := []\<rparr>) cs2"
      by auto
    obtain st1 c1c where e1: "event_timestamps L (length product_ids) c1b = (st1, c1c)"
      by (cases "event_timestamps L (length product_ids) c1b")
    obtain st2 c2c where e2: "event_timestamps L (length product_ids) c2b = (st2, c2c)"
      by (cases "event_timestamps L (length product_ids) c2b")
    show ?thesis
    proof (cases "generate_order L ids product_ids 1 (g2, c1c)")
      case (Inl e)
      with generate_order_clock [where L = L and cids = ids and pids = product_ids and i = 1 and g = g2 and ca = c1c and cb = c2c] a1 a2 b1 b2 e1 e2 show ?thesis
        by (simp add: generate_dataset_def)
    next
      case (Inr r)
      then obtain ord g3 c1d where d1: "generate_order L ids product_ids 1 (g2, c1c) = Inr (ord, (g3, c1d))"
        by (cases r) auto
      with generate_order_clock [where L = L and cids = ids and pids = product_ids and i = 1 and g = g2 and ca = c1c and cb = c2c] obtain ev' c2d where
        d2: "generate_order L ids product_ids 1 (g2, c2c) = Inr (ord\<lparr>o_event_time := ev'\<rparr>, (g3, c2d))"
        by auto
      from orders_loop_clock [where ?acc1.0 = "[]" and ?acc2.0 = "[]" and L = L and cids = ids and pids = product_ids and idx = "[0..<m]" and g = g3 and ca = c1d and cb = c2d]
      show ?thesis using a1 a2 b1 b2 e1 e2 d1 d2 cs
        by (auto simp: generate_dataset_def without_event_times_def split: sum.splits)
    qed
  qed
qed


subsection \<open>The reorder flag\<close>

lemma generate_order_Inr:
  assumes "generate_order L cids pids i s = Inr (ord, s')"
  shows "\<exists>g1 g2 n g3 g5.
           choice L cids (fst s) = Inr (o_customer_id ord, g1)
         \<and> choice L pids g1 = Inr (product_id ord, g2)
         \<and> randint L 1 101 g2 = Inr (n, g3)
         \<and> purchase_amount ord = fl (of_int n + py_round2 (fst (random_random L g3)))
         \<and> choice L reorder_pool (snd (random_random L g3)) = Inr (is_reordered ord, g5)"
  using assms
  by (cases s) (fastforce simp: generate_order_def Let_def split: prod.splits sum.splits)




section \<open>Properties of the transformer\<close>

subsection \<open>Age buckets\<close>

text \<open>
  C1. The bucket columns of the ages 29, 30 and 91. The bins are closed on the right:
  age 30 falls into \<open>(18, 30]\<close> and gets the column \<open>age_18-29\<close>, not \<open>age_30-39\<close>. The
  last edge is 90, while the generator draws ages up to 91: age 91 is outside every bin
  and its row holds 0 in all six columns.
\<close>

theorem age_buckets_at_30_and_91:
  "age_dummies [29, 30, 91]
     = Inr [(''age_18-29'', [1, 1, 0]), (''age_30-39'', [0, 0, 0]), (''age_40-49'', [0, 0, 0]),
            (''age_50-59'', [0, 0, 0]), (''age_60-69'', [0, 0, 0]), (''age_70-plus'', [0, 0, 0])]"
  by code_simp

text \<open>
  What the code does on the ages its bins cover, 18 to 90: exactly the column of the bin
  \<open>(lo, hi]\<close> that holds the age is 1, with 18 itself in the first bin.
\<close>

lemma age_bucket_within_bins:
  assumes "18 \<le> a" "a \<le> 90"
  shows "age_dummies [a]
     = Inr (map (\<lambda>(l, lo, hi). (''age_'' @ l, [if lo < a \<and> a \<le> hi then 1 else 0]))
            [(''18-29'', 17, 30), (''30-39'', 30, 40), (''40-49'', 40, 50),
             (''50-59'', 50, 60), (''60-69'', 60, 70), (''70-plus'', 70, 90)])"
  using assms
  by (auto simp: age_dummies_def pd_cut_def cut_one_def searchsorted_left_def get_dummies_def
      bins_def labels_def Let_def)

subsection \<open>Label encoding\<close>

lemma index_of_sorted:
  "sorted xs \<Longrightarrow> distinct xs \<Longrightarrow> v \<in> set xs \<Longrightarrow>
     index_of xs v = card {c \<in> set xs. c < v}"
proof (induction xs)
  case Nil
  then show ?case by simp
next
  case (Cons a xs)
  show ?case
  proof (cases "a = v")
    case True
    with Cons.prems have "{c \<in> set (a # xs). c < v} = {}" by auto
    with True show ?thesis by (simp add: index_of_def)
  next
    case False
    with Cons.prems have v: "v \<in> set xs" and av: "a < v" by auto
    from Cons.prems have "a \<notin> set xs" by simp
    then have "{c \<in> set (a # xs). c < v} = insert a {c \<in> set xs. c < v}"
      and "a \<notin> {c \<in> set xs. c < v}"
      using av by auto
    then have "card {c \<in> set (a # xs). c < v} = Suc (card {c \<in> set xs. c < v})" by simp
    moreover from Cons.IH v Cons.prems have "index_of xs v = card {c \<in> set xs. c < v}" by simp
    ultimately show ?thesis using False by (simp add: index_of_def)
  qed
qed

text \<open>
  C6. Encoding a column gives the same codes whatever the encoder object was fitted on
  before, so encoding the same column twice gives the same codes. The code of a value is
  its position among the distinct values of the column in ascending order (the number of
  distinct values below it): it depends on the set of values only, not on the order in
  which they appear.
\<close>

theorem label_encoding_stable:
  "fst (label_fit_transform e1 y) = fst (label_fit_transform e2 y)
   \<and> fst (label_fit_transform e1 y) = map (\<lambda>v. card {c \<in> set y. c < v}) y
   \<and> classes (snd (label_fit_transform e1 y)) = Some (sorted_list_of_set (set y))"
proof -
  have "index_of (sorted_list_of_set (set y)) v = card {c \<in> set y. c < v}" if "v \<in> set y" for v
    using index_of_sorted [of "sorted_list_of_set (set y)" v] that by simp
  then show ?thesis by (simp add: label_fit_transform_def Let_def)
qed

section \<open>Properties of the training hand-off and of the ingestion\<close>

lemma map_of_filter_fst:
  "distinct (map fst df) \<Longrightarrow> map_of df k = Some col \<Longrightarrow>
     mset df = add_mset (k, col) (mset (filter (\<lambda>c. fst c \<noteq> k) df))"
proof (induction df)
  case Nil
  then show ?case by simp
next
  case (Cons a df)
  obtain n v where a: "a = (n, v)" by (cases a)
  show ?case
  proof (cases "n = k")
    case True
    with Cons.prems a have "v = col" by simp
    moreover from True Cons.prems a have "k \<notin> fst ` set df" by simp
    then have "filter (\<lambda>c. fst c \<noteq> k) df = df" by (auto simp: filter_id_conv)
    ultimately show ?thesis using True a by simp
  next
    case False
    with Cons a show ?thesis by simp
  qed
qed

text \<open>
  C9. On a frame with distinct column names that has an \<open>is_reordered\<close> column, the two
  statements return the frame with that column, values unchanged, at position 0, followed
  by all other columns with their values and in their old order; the columns of the
  result are, as a multiset, the columns of the frame.
\<close>

theorem target_moved_first:
  assumes "distinct (map fst df)" and "''is_reordered'' \<in> set (map fst df)"
  shows "\<exists>col. move_target_first df
             = Inr ((''is_reordered'', col) # filter (\<lambda>c. fst c \<noteq> ''is_reordered'') df)
           \<and> (''is_reordered'', col) \<in> set df
           \<and> mset ((''is_reordered'', col) # filter (\<lambda>c. fst c \<noteq> ''is_reordered'') df) = mset df"
proof -
  from assms(2) obtain col where c: "map_of df ''is_reordered'' = Some col"
    by (metis (no_types, lifting) domD dom_map_of_conv_image_fst set_map)
  have ins: "''is_reordered'' \<notin> set (map fst (filter (\<lambda>c. fst c \<noteq> ''is_reordered'') df))"
    by auto
  have "move_target_first df = Inr ((''is_reordered'', col) # filter (\<lambda>c. fst c \<noteq> ''is_reordered'') df)"
    using ins by (simp add: move_target_first_def df_pop_def df_insert_def c del: set_map)
  moreover from c have "(''is_reordered'', col) \<in> set df" by (rule map_of_SomeD)
  moreover from map_of_filter_fst [OF assms(1) c]
  have "mset ((''is_reordered'', col) # filter (\<lambda>c. fst c \<noteq> ''is_reordered'') df) = mset df" by simp
  ultimately show ?thesis by blast
qed

theorem target_moved_first_witness:
  "distinct (map fst [(''order_id'', [7, 8]), (''is_reordered'', [0, 1]), (''purchase_amount'', [3, 4 :: int])])
   \<and> ''is_reordered'' \<in> set (map fst [(''order_id'', [7, 8]), (''is_reordered'', [0, 1]), (''purchase_amount'', [3, 4 :: int])])
   \<and> move_target_first [(''order_id'', [7, 8]), (''is_reordered'', [0, 1]), (''purchase_amount'', [3, 4 :: int])]
        = Inr [(''is_reordered'', [0, 1]), (''order_id'', [7, 8]), (''purchase_amount'', [3, 4])]"
proof -
  let ?df = "[(''order_id'', [7, 8]), (''is_reordered'', [0, 1]), (''purchase_amount'', [3, 4 :: int])]"
  have d: "distinct (map fst ?df)" and m: "''is_reordered'' \<in> set (map fst ?df)" by simp_all
  from target_moved_first [OF d m] obtain col where
    r: "move_target_first ?df = Inr ((''is_reordered'', col) # filter (\<lambda>c. fst c \<noteq> ''is_reordered'') ?df)"
    and c: "(''is_reordered'', col) \<in> set ?df"
    by blast
  from c have "col = [0, 1]" by simp
  with r d m show ?thesis by simp
qed

text \<open>
  C8. Once the ingest call has returned its response, \<open>ingest_data\<close> completes without
  error when the response lists no failed row, and raises AssertionError when it lists
  one or more.
\<close>

theorem ingest_asserts_no_failed_rows:
  assumes "loaded = Inr df" and "fg_ingest df num_processes num_workers = Inr response"
  shows "ingest_data loaded fg_ingest num_processes num_workers
           = (if failed_rows response = [] then Inr () else Inl AssertionError)"
  using assms by (simp add: ingest_data_def)

theorem ingest_asserts_no_failed_rows_witness:
  "ingest_data (Inr [5, 6, 7 :: nat])
       (\<lambda>df p w. Inr \<lparr>failed_rows = filter (\<lambda>i. 6 < df ! i) [0..<length df]\<rparr>) 4 4
     = Inl AssertionError
   \<and> ingest_data (Inr [5, 6 :: nat])
       (\<lambda>df p w. Inr \<lparr>failed_rows = filter (\<lambda>i. 6 < df ! i) [0..<length df]\<rparr>) 4 4
     = Inr ()"
proof -
  let ?ing = "\<lambda>(df :: nat list) (p :: nat) (w :: nat).
      (Inr \<lparr>failed_rows = filter (\<lambda>i. 6 < df ! i) [0..<length df]\<rparr> :: py_error + ingestion_manager)"
  have a: "ingest_data (Inr [5, 6, 7]) ?ing 4 4
      = (if failed_rows \<lparr>failed_rows = [2]\<rparr> = [] then Inr () else Inl AssertionError)"
    by (rule ingest_asserts_no_failed_rows [where df = "[5, 6, 7]"]) (simp_all add: upt_rec)
  have b: "ingest_data (Inr [5, 6]) ?ing 4 4
      = (if failed_rows \<lparr>failed_rows = []\<rparr> = [] then Inr () else Inl AssertionError)"
    by (rule ingest_asserts_no_failed_rows [where df = "[5, 6]"]) (simp_all add: upt_rec)
  from a b
  show ?thesis by simp
qed

section \<open>Properties that rest on the float arithmetic\<close>

subsection \<open>The purchase amount\<close>

lemma py_round2_range:
  assumes "0 \<le> u" "u < 1"
  shows "0 \<le> py_round2 u \<and> py_round2 u \<le> 1"
proof -
  let ?k = "round_half_even (u * 100)"
  from assms have b: "of_int 0 \<le> u * 100" "u * 100 \<le> of_int 100" by simp_all
  have "0 \<le> ?k" "?k \<le> 100" using rhe_ge [OF b(1)] rhe_le [OF b(2)] by simp_all
  then have q: "(0::rat) \<le> of_int ?k / 100" "(of_int ?k :: rat) / 100 \<le> 1" by simp_all
  have "fl 0 \<le> fl (of_int ?k / 100)" "fl (of_int ?k / 100) \<le> fl 1"
    using fl_mono [OF q(1)] fl_mono [OF q(2)] by simp_all
  then show ?thesis by (simp add: py_round2_def fl_zero fl_one)
qed

lemma randint_range:
  assumes "library_contract L" "randint L a b g = Inr (n, g')"
  shows "a \<le> n \<and> n \<le> b"
proof -
  from assms(2) have w: "0 < b + 1 - a" and n: "n = a + int (fst (randbelow L (nat (b + 1 - a)) g))"
    by (auto simp: randint_def Let_def split: if_splits prod.splits)
  from w assms(1) have "fst (randbelow L (nat (b + 1 - a)) g) < nat (b + 1 - a)"
    by (simp add: library_contract_def)
  with n w show ?thesis by linarith
qed

text \<open>
  C10, as the code has it. The purchase amount of a generated order is the float sum of
  an integer \<open>n\<close> from 1 to 101 and \<open>round(u, 2)\<close> for a random \<open>u\<close> in \<open>[0, 1)\<close>, and it
  lies in the closed interval from 1 to 102. Nothing is said about its decimal digits:
  the sum is rounded to the nearest float, which need not be the float nearest to a
  decimal with two places.
\<close>

theorem purchase_amount_range:
  assumes "library_contract L" and "generate_order L cids pids i s = Inr (ord, s')"
  shows "\<exists>n u. 1 \<le> n \<and> n \<le> 101 \<and> 0 \<le> u \<and> u < 1
           \<and> purchase_amount ord = fl (of_int n + py_round2 u)
           \<and> 1 \<le> purchase_amount ord \<and> purchase_amount ord \<le> 102"
proof -
  from generate_order_Inr [OF assms(2)] obtain g2 n g3 where
    ri: "randint L 1 101 g2 = Inr (n, g3)" and
    pa: "purchase_amount ord = fl (of_int n + py_round2 (fst (random_random L g3)))"
    by blast
  let ?u = "fst (random_random L g3)"
  from randint_range [OF assms(1) ri] have n: "1 \<le> n" "n \<le> 101" by simp_all
  from assms(1) have u: "0 \<le> ?u" "?u < 1" by (simp_all add: library_contract_def)
  from py_round2_range [OF u] have r: "0 \<le> py_round2 ?u" "py_round2 ?u \<le> 1" by simp_all
  from n have "(1::rat) \<le> of_int n" "(of_int n :: rat) \<le> 101" by simp_all
  with r have b: "1 \<le> of_int n + py_round2 ?u" "of_int n + py_round2 ?u \<le> 102" by linarith+
  have "fl 1 \<le> fl (of_int n + py_round2 ?u)" "fl (of_int n + py_round2 ?u) \<le> fl 102"
    using fl_mono [OF b(1)] fl_mono [OF b(2)] by simp_all
  then have "1 \<le> purchase_amount ord" "purchase_amount ord \<le> 102"
    by (simp_all add: pa fl_one fl_102)
  with n u pa show ?thesis by blast
qed


theorem purchase_amount_range_witness:
  "library_contract toy_library
   \<and> (case generate_order toy_library [''C1''] [''P7''] 1 (99, 0) of
        Inl e \<Rightarrow> False
      | Inr (ord, s') \<Rightarrow>
          purchase_amount ord = 447545212969943 / 281474976710656
          \<and> 1 \<le> purchase_amount ord \<and> purchase_amount ord \<le> 102)"
proof -
  have run: "(case generate_order toy_library [''C1''] [''P7''] 1 (99, 0) of
        Inl e \<Rightarrow> False
      | Inr (ord, s') \<Rightarrow> purchase_amount ord = 447545212969943 / 281474976710656)"
    by code_simp
  then obtain ord s' where
    r: "generate_order toy_library [''C1''] [''P7''] 1 (99, 0) = Inr (ord, s')"
    by (auto split: sum.splits)
  from purchase_amount_range [OF toy_library_contract r] run r toy_library_contract
  show ?thesis by auto
qed

text \<open>
  The order generated with \<open>n = 1\<close> and \<open>u = 38/64\<close>: \<open>round(u, 2)\<close> is the float 0.59, and
  \<open>1 + 0.59\<close> is the float that prints as 1.5899999999999999, not the float 1.59.
\<close>

theorem purchase_amount_two_decimals_counterexample:
  "(case generate_order toy_library [''C1''] [''P7''] 1 (99, 0) of
      Inl e \<Rightarrow> False
    | Inr (ord, s') \<Rightarrow>
        purchase_amount ord = fl (1 + py_round2 (38 / 64))
        \<and> py_round2 (38 / 64) = fl (59 / 100)
        \<and> purchase_amount ord \<noteq> fl (159 / 100)
        \<and> \<not> two_decimals (purchase_amount ord))"
  by code_simp

subsection \<open>Min-max scaling\<close>

text \<open>
  C5. Scaling a constant column (its largest value equals its smallest) raises nothing:
  the zero range is replaced by 1 before the division, the scale is 1 and every value of
  the column is mapped to 0.
\<close>

theorem constant_column_scales_to_zero:
  assumes "X \<noteq> []" and "Max (set X) = Min (set X)"
  shows "\<exists>sc. min_max_fit_transform old X = Inr (map (\<lambda>x. 0) X, sc) \<and> scale sc = 1"
proof -
  let ?c = "Min (set X)"
  have all: "x = ?c" if "x \<in> set X" for x
  proof -
    from that have "?c \<le> x" "x \<le> Max (set X)" by simp_all
    with assms(2) show ?thesis by simp
  qed
  have "fl (fl (x * 1) + fl (0 - fl (?c * 1))) = 0" if "x \<in> set X" for x
    using all [OF that] by (simp add: fl_minus fl_idem fl_zero)
  then have "map (\<lambda>x. fl (fl (x * 1) + fl (0 - fl (?c * 1)))) X = map (\<lambda>x. 0) X"
    by (intro map_cong) simp_all
  then show ?thesis
    using assms
    by (simp add: min_max_fit_transform_def min_max_fit_transform_with_def min_max_fit_def
        min_max_transform_def handle_zeros_in_scale_def Let_def fl_zero fl_one)
qed

theorem constant_column_scales_to_zero_witness:
  "[57, 57, 57 :: rat] \<noteq> [] \<and> Max (set [57, 57, 57 :: rat]) = Min (set [57, 57, 57 :: rat])
   \<and> map_sum id fst (min_max_fit_transform None [57, 57, 57]) = Inr [0, 0, 0]"
proof -
  have a: "[57, 57, 57 :: rat] \<noteq> []" and b: "Max (set [57, 57, 57 :: rat]) = Min (set [57, 57, 57 :: rat])"
    by simp_all
  from constant_column_scales_to_zero [OF a b, of None] a b show ?thesis by auto
qed





end
